theory Spec2Isabelle
  imports Main "HOL-Library.Code_Target_Nat"
begin

section \<open>Strings and the character database of the runtime\<close>

text \<open>
  A Python \<open>str\<close> is a sequence of Unicode code points and \<open>len\<close> counts code points,
  so a string is a list of code points here. The classification of a code point as
  whitespace (\<open>\s\<close>, \<open>str.strip\<close>), decimal digit (\<open>\d\<close>) or word character
  (\<open>\w\<close>), and the case-insensitive comparison of \<open>re.IGNORECASE\<close>, are tables of the
  runtime and not of this repository: they are a parameter of every function below.
\<close>

type_synonym cp = nat
type_synonym str = "cp list"

record chardb =
  isspace :: "cp \<Rightarrow> bool"
  isdigit :: "cp \<Rightarrow> bool"
  isword :: "cp \<Rightarrow> bool"
  caseless :: "cp \<Rightarrow> cp \<Rightarrow> bool"

definition py :: "string \<Rightarrow> str" where
  "py s = map of_char s"

definition ascii_lower :: "cp \<Rightarrow> cp" where
  "ascii_lower c = (if 65 \<le> c \<and> c \<le> 90 then c + 32 else c)"

text \<open>The tables restricted to ASCII: every other code point is in no class.\<close>

definition ascii_db :: chardb where
  "ascii_db = \<lparr>
     isspace = (\<lambda>c. (9 \<le> c \<and> c \<le> 13) \<or> (28 \<le> c \<and> c \<le> 32)),
     isdigit = (\<lambda>c. 48 \<le> c \<and> c \<le> 57),
     isword = (\<lambda>c. (48 \<le> c \<and> c \<le> 57) \<or> (65 \<le> c \<and> c \<le> 90) \<or> c = 95
                    \<or> (97 \<le> c \<and> c \<le> 122)),
     caseless = (\<lambda>p x. ascii_lower p = ascii_lower x) \<rparr>"

section \<open>Regular expressions with the matching order of \<open>re\<close>\<close>

datatype item = Ch cp | Space | NonSpace | Digit | NonDigit | Word

datatype regex =
    Eps
  | Sym "item list"
  | Rep "item list" nat "nat option"
  | Cat regex regex
  | Alt regex regex
  | Opt regex
  | WordBoundary
  | EndOfString
  | LookBehind "item list"

text \<open>
  \<open>Sym is\<close> is one character of the set \<open>is\<close> (a literal is a set of one),
  \<open>Rep is m n\<close> the greedy repetition \<open>[is]{m,n}\<close> (\<open>n = None\<close>: no upper bound),
  \<open>Opt r\<close> is \<open>(r)?\<close>, \<open>WordBoundary\<close> is \<open>\b\<close>, \<open>EndOfString\<close> is \<open>$\<close>
  and \<open>LookBehind is\<close> is \<open>(?<=[is])\<close>.
\<close>

fun item_ok :: "chardb \<Rightarrow> bool \<Rightarrow> item \<Rightarrow> cp \<Rightarrow> bool" where
  "item_ok U ic (Ch c) x = (if ic then caseless U c x else c = x)"
| "item_ok U ic Space x = isspace U x"
| "item_ok U ic NonSpace x = (\<not> isspace U x)"
| "item_ok U ic Digit x = isdigit U x"
| "item_ok U ic NonDigit x = (\<not> isdigit U x)"
| "item_ok U ic Word x = isword U x"

definition in_set :: "chardb \<Rightarrow> bool \<Rightarrow> item list \<Rightarrow> cp \<Rightarrow> bool" where
  "in_set U ic its x = list_ex (\<lambda>i. item_ok U ic i x) its"

text \<open>
  A position in the subject is the character before it (if any) and the rest of the
  subject: \<open>\b\<close> and the lookbehind read the former.
\<close>

type_synonym pos = "cp option \<times> str"

definition word_at :: "chardb \<Rightarrow> cp option \<Rightarrow> bool" where
  "word_at U p = (case p of None \<Rightarrow> False | Some c \<Rightarrow> isword U c)"

fun rep :: "(cp \<Rightarrow> bool) \<Rightarrow> nat \<Rightarrow> nat option \<Rightarrow> cp option \<Rightarrow> str \<Rightarrow> pos list" where
  "rep P m n p [] = (if m = 0 then [(p, [])] else [])"
| "rep P m n p (x # xs) =
     (if P x \<and> n \<noteq> Some 0 then rep P (m - 1) (map_option (\<lambda>k. k - 1) n) (Some x) xs else [])
     @ (if m = 0 then [(p, x # xs)] else [])"

text \<open>
  \<open>ms r pos\<close> lists the positions at which a match of \<open>r\<close> started at \<open>pos\<close> can end,
  in the order in which the backtracking matcher tries them: the head of the list is the
  match that \<open>re\<close> reports.
\<close>

fun ms :: "chardb \<Rightarrow> bool \<Rightarrow> regex \<Rightarrow> pos \<Rightarrow> pos list" where
  "ms U ic Eps st = [st]"
| "ms U ic (Sym its) (p, []) = []"
| "ms U ic (Sym its) (p, x # xs) = (if in_set U ic its x then [(Some x, xs)] else [])"
| "ms U ic (Rep its m n) (p, xs) = rep (in_set U ic its) m n p xs"
| "ms U ic (Cat r s) st = concat (map (ms U ic s) (ms U ic r st))"
| "ms U ic (Alt r s) st = ms U ic r st @ ms U ic s st"
| "ms U ic (Opt r) st = ms U ic r st @ [st]"
| "ms U ic WordBoundary (p, xs) =
     (if word_at U p \<noteq> word_at U (case xs of [] \<Rightarrow> None | x # _ \<Rightarrow> Some x) then [(p, xs)] else [])"
| "ms U ic EndOfString (p, xs) = (if xs = [] \<or> xs = [10] then [(p, xs)] else [])"
| "ms U ic (LookBehind its) (p, xs) =
     (case p of None \<Rightarrow> [] | Some c \<Rightarrow> if in_set U ic its c then [(p, xs)] else [])"

text \<open>
  \<open>find_match\<close> is \<open>re.search\<close> continued from a position: the leftmost start at which
  the pattern matches, as (text before the match, the match, text after it).
\<close>

fun find_match :: "chardb \<Rightarrow> bool \<Rightarrow> regex \<Rightarrow> cp option \<Rightarrow> str \<Rightarrow> (str \<times> str \<times> str) option" where
  "find_match U ic r p [] =
     (case ms U ic r (p, []) of [] \<Rightarrow> None | (q, ys) # _ \<Rightarrow> Some ([], [], []))"
| "find_match U ic r p (x # xs) =
     (case ms U ic r (p, x # xs) of
        (q, ys) # _ \<Rightarrow> Some ([], take (Suc (length xs) - length ys) (x # xs), ys)
      | [] \<Rightarrow> (case find_match U ic r (Some x) xs of
                 None \<Rightarrow> None
               | Some (a, m, b) \<Rightarrow> Some (x # a, m, b)))"

text \<open>
  \<open>re.sub\<close> scans the subject from left to right. \<open>sub_go\<close> is at one position of
  the scan: \<open>k\<close> characters of the match found last are still to be passed over; with
  \<open>k = 0\<close> the pattern is tried here, the head of \<open>ms\<close> being the match. A match is
  replaced by \<open>repl\<close> and the scan goes on behind it; an empty match is replaced and the
  character behind it copied (no pattern of this program matches the empty string).
\<close>

fun sub_go :: "chardb \<Rightarrow> bool \<Rightarrow> regex \<Rightarrow> str \<Rightarrow> nat \<Rightarrow> cp option \<Rightarrow> str \<Rightarrow> str" where
  "sub_go U ic r repl k p [] = (if k = 0 \<and> ms U ic r (p, []) \<noteq> [] then repl else [])"
| "sub_go U ic r repl k p (x # xs) =
     (if 0 < k then sub_go U ic r repl (k - 1) (Some x) xs
      else (case ms U ic r (p, x # xs) of
              [] \<Rightarrow> x # sub_go U ic r repl 0 (Some x) xs
            | (q, ys) # _ \<Rightarrow>
                (if length xs < length ys then repl @ x # sub_go U ic r repl 0 (Some x) xs
                 else repl @ sub_go U ic r repl (length xs - length ys) (Some x) xs)))"

definition re_sub :: "chardb \<Rightarrow> bool \<Rightarrow> regex \<Rightarrow> str \<Rightarrow> str \<Rightarrow> str" where
  "re_sub U ic r repl s = sub_go U ic r repl 0 None s"

text \<open>\<open>re.split\<close>, by the same scan; \<open>cur\<close> is the piece being collected.\<close>

fun split_go :: "chardb \<Rightarrow> bool \<Rightarrow> regex \<Rightarrow> nat \<Rightarrow> str \<Rightarrow> cp option \<Rightarrow> str \<Rightarrow> str list" where
  "split_go U ic r k cur p [] = (if k = 0 \<and> ms U ic r (p, []) \<noteq> [] then [cur, []] else [cur])"
| "split_go U ic r k cur p (x # xs) =
     (if 0 < k then split_go U ic r (k - 1) cur (Some x) xs
      else (case ms U ic r (p, x # xs) of
              [] \<Rightarrow> split_go U ic r 0 (cur @ [x]) (Some x) xs
            | (q, ys) # _ \<Rightarrow>
                (if length xs < length ys then cur # split_go U ic r 0 [x] (Some x) xs
                 else cur # split_go U ic r (length xs - length ys) [] (Some x) xs)))"

definition re_split :: "chardb \<Rightarrow> bool \<Rightarrow> regex \<Rightarrow> str \<Rightarrow> str list" where
  "re_split U ic r s = split_go U ic r 0 [] None s"

text \<open>The truth value of what \<open>re.search\<close> returns: a match object is true, \<open>None\<close> false.\<close>

definition found :: "'a option \<Rightarrow> bool" where
  "found m = (m \<noteq> None)"

definition re_search :: "chardb \<Rightarrow> bool \<Rightarrow> regex \<Rightarrow> str \<Rightarrow> (str \<times> str \<times> str) option" where
  "re_search U ic r s = find_match U ic r None s"

definition lit :: "string \<Rightarrow> regex" where
  "lit s = foldr (\<lambda>c r. Cat (Sym [Ch (of_char c)]) r) s Eps"

definition seq :: "regex list \<Rightarrow> regex" where
  "seq rs = foldr Cat rs Eps"

definition chr :: "char \<Rightarrow> item" where
  "chr c = Ch (of_char c)"

section \<open>String methods\<close>

definition rstrip :: "chardb \<Rightarrow> str \<Rightarrow> str" where
  "rstrip U s = rev (dropWhile (isspace U) (rev s))"

definition strip :: "chardb \<Rightarrow> str \<Rightarrow> str" where
  "strip U s = rstrip U (dropWhile (isspace U) s)"

fun startswith :: "str \<Rightarrow> str \<Rightarrow> bool" where
  "startswith s [] = True"
| "startswith [] (c # cs) = False"
| "startswith (x # xs) (c # cs) = (x = c \<and> startswith xs cs)"

section \<open>Configuration\<close>

definition MAX_SITE_PAGES :: nat where "MAX_SITE_PAGES = 4"
definition MAX_OFFER_LEN :: nat where "MAX_OFFER_LEN = 30"

definition word_pat :: "string \<Rightarrow> regex" where
  "word_pat w = seq [WordBoundary, lit w, WordBoundary]"

definition CTA_PATTERNS :: "regex list" where
  "CTA_PATTERNS = [
     word_pat ''call'', word_pat ''text'', word_pat ''email'', word_pat ''message'',
     word_pat ''contact'', word_pat ''book'', word_pat ''schedule'', word_pat ''appointment'',
     word_pat ''get a quote'', word_pat ''get quote'', word_pat ''request'', word_pat ''click'',
     word_pat ''tap'', word_pat ''visit'', word_pat ''order'', word_pat ''buy'',
     word_pat ''apply now'', word_pat ''chat'', word_pat ''inquire'', word_pat ''quote'']"

text \<open>\<open>(\+?1?\s*)?(\(?\d{3}\)?[\s\-\.]?\d{3}[\s\-\.]?\d{4})\<close>, compiled without flags.\<close>

definition PHONE_REGEX :: regex where
  "PHONE_REGEX = seq [
     Opt (seq [Opt (Sym [chr CHR ''+'']), Opt (Sym [chr CHR ''1'']), Rep [Space] 0 None]),
     Opt (Sym [chr CHR ''('']), Rep [Digit] 3 (Some 3), Opt (Sym [chr CHR '')'']),
     Opt (Sym [Space, chr CHR ''-'', chr CHR ''.'']), Rep [Digit] 3 (Some 3),
     Opt (Sym [Space, chr CHR ''-'', chr CHR ''.'']), Rep [Digit] 4 (Some 4)]"

text \<open>\<open>(https?://\S+|www\.\S+)\<close>, compiled with \<open>re.IGNORECASE\<close>.\<close>

definition URL_REGEX :: regex where
  "URL_REGEX = Alt (seq [lit ''http'', Opt (Sym [chr CHR ''s'']), lit ''://'', Rep [NonSpace] 1 None])
                   (seq [lit ''www.'', Rep [NonSpace] 1 None])"

section \<open>Helpers\<close>

definition clean_str :: "chardb \<Rightarrow> str option \<Rightarrow> str" where
  "clean_str U x = (case x of None \<Rightarrow> [] | Some s \<Rightarrow> strip U s)"

definition normalize_phone :: "chardb \<Rightarrow> str \<Rightarrow> str" where
  "normalize_phone U phone =
     (let digits = re_sub U False (Rep [NonDigit] 1 None) [] (clean_str U (Some phone))
      in if length digits = 10 then py ''+1'' @ digits
         else if length digits = 11 \<and> startswith digits (py ''1'') then py ''+'' @ digits
         else digits)"

definition normalize_url :: "chardb \<Rightarrow> str \<Rightarrow> str" where
  "normalize_url U url0 =
     (let url = clean_str U (Some url0)
      in if url = [] then []
         else if \<not> (startswith url (py ''http://'') \<or> startswith url (py ''https://''))
              then py ''https://'' @ url
         else url)"

text \<open>\<open>\s+\<close> and \<open>[\|\<bullet>]+\<close> (the bullet is U+2022).\<close>

definition WS_RUN :: regex where
  "WS_RUN = Rep [Space] 1 None"

definition SEPARATOR_RUN :: regex where
  "SEPARATOR_RUN = Rep [chr CHR ''|'', Ch 8226] 1 None"

definition strip_contact_and_cta :: "chardb \<Rightarrow> str \<Rightarrow> str" where
  "strip_contact_and_cta U text =
     (let t = clean_str U (Some text)
      in if t = [] then []
         else
           let t = re_sub U True URL_REGEX [] t;
               t = re_sub U False PHONE_REGEX [] t;
               t = foldl (\<lambda>t pat. re_sub U True pat [] t) t CTA_PATTERNS;
               t = strip U (re_sub U False WS_RUN (py '' '') t);
               t = strip U (re_sub U False SEPARATOR_RUN (py '' '') t)
           in t)"

text \<open>
  The list \<open>patterns\<close> of \<open>compress_to_offer\<close> (the offer-shape patterns), in the
  order of the source. Each is one capturing group around the whole pattern, so
  \<open>m.group(1)\<close> is the whole match.
\<close>

definition offer_shapes :: "regex list" where
  "offer_shapes = [
     seq [WordBoundary, Rep [Digit] 1 (Some 2), Sym [chr CHR ''%''], Rep [Space] 0 None,
          lit ''off'', WordBoundary],
     seq [WordBoundary, Opt (Sym [chr CHR ''$'']), Rep [Space] 0 None, Rep [Digit] 1 None,
          Rep [Space] 0 None, Alt (lit ''off'') (lit ''discount''), WordBoundary],
     seq [WordBoundary, lit ''free'', Rep [Space] 1 None, Rep [Word] 1 None,
          Opt (seq [Rep [Space] 1 None, Rep [Word] 1 None]), WordBoundary],
     seq [WordBoundary, lit ''0%'', Rep [Space] 0 None, Alt (lit ''apr'') (lit ''interest''),
          WordBoundary],
     seq [WordBoundary, lit ''financing'', Rep [Space] 1 None, lit ''available'', WordBoundary],
     seq [WordBoundary, lit ''no'', Rep [Space] 1 None, lit ''money'', Rep [Space] 1 None,
          lit ''down'', WordBoundary],
     seq [WordBoundary, lit ''lifetime'', Rep [Space] 1 None, lit ''warranty'', WordBoundary],
     seq [WordBoundary, Rep [Digit] 1 None, Rep [Space] 0 None, Alt (lit ''year'') (lit ''yr''),
          Rep [Space] 0 None, lit ''warranty'', WordBoundary],
     seq [WordBoundary, lit ''same'', Rep [chr CHR ''-'', Space] 0 None, lit ''day'',
          Rep [Space] 1 None, lit ''service'', WordBoundary],
     seq [WordBoundary, lit ''price'', Rep [Space] 0 None, lit ''match'', WordBoundary],
     seq [WordBoundary, lit ''seasonal'', Rep [Space] 1 None, lit ''special'', WordBoundary]]"

text \<open>The loop over the patterns: it has no \<open>break\<close>, every pattern is tried on the current text.\<close>

fun apply_patterns :: "chardb \<Rightarrow> regex list \<Rightarrow> str \<Rightarrow> str" where
  "apply_patterns U [] t = t"
| "apply_patterns U (p # ps) t =
     apply_patterns U ps (case re_search U True p t of None \<Rightarrow> t | Some (a, m, b) \<Rightarrow> m)"

text \<open>\<open>\s+\S*$\<close>\<close>

definition LAST_WORD :: regex where
  "LAST_WORD = seq [Rep [Space] 1 None, Rep [NonSpace] 0 None, EndOfString]"

definition compress_to_offer :: "chardb \<Rightarrow> str \<Rightarrow> str" where
  "compress_to_offer U text =
     (let t = strip_contact_and_cta U text
      in if t = [] then []
         else
           let t = apply_patterns U offer_shapes t;
               t = strip U (re_sub U False WS_RUN (py '' '') t);
               t = (if MAX_OFFER_LEN < length t
                    then let t = rstrip U (take MAX_OFFER_LEN t);
                             t = strip U (re_sub U False LAST_WORD [] t)
                         in if t = []
                            then strip U (take MAX_OFFER_LEN (strip_contact_and_cta U text))
                            else t
                    else t)
           in if found (re_search U True URL_REGEX t) \<or> found (re_search U False PHONE_REGEX t)
              then [] else t)"

section \<open>Sentence matcher\<close>

text \<open>\<open>(?<=[.!?])\s+\<close>\<close>

definition SENTENCE_END :: regex where
  "SENTENCE_END = seq [LookBehind [chr CHR ''.'', chr CHR ''!'', chr CHR ''?''], Rep [Space] 1 None]"

text \<open>
  The loop of \<open>find_sentences\<close> over the sentences, \<open>hits\<close> being the list built so
  far. The patterns arrive compiled (with \<open>re.IGNORECASE\<close>); \<open>max_items\<close> is a Python
  \<open>int\<close>. The test against \<open>max_items\<close> stands at the end of the loop body, behind
  the \<open>append\<close>, and a \<open>continue\<close> passes it by.
\<close>

fun collect_hits :: "chardb \<Rightarrow> regex list \<Rightarrow> int \<Rightarrow> str list \<Rightarrow> str list \<Rightarrow> str list" where
  "collect_hits U rx max_items hits [] = hits"
| "collect_hits U rx max_items hits (s0 # ss) =
     (let s = strip U s0
      in if length s < 18 then collect_hits U rx max_items hits ss
         else
           let hits' =
                 (if list_ex (\<lambda>r. found (re_search U True r s)) rx
                  then let s' = strip_contact_and_cta U s
                       in if s' \<noteq> [] then hits @ [take 240 s'] else hits
                  else hits)
           in if max_items \<le> int (length hits') then hits'
              else collect_hits U rx max_items hits' ss)"

definition find_sentences :: "chardb \<Rightarrow> str \<Rightarrow> regex list \<Rightarrow> int \<Rightarrow> str list" where
  "find_sentences U text patterns max_items =
     (if text = [] then []
      else collect_hits U patterns max_items [] (re_split U False SENTENCE_END text))"

section \<open>Site crawler and bundle assembler\<close>

definition CANDIDATE_PATHS :: "str list" where
  "CANDIDATE_PATHS = map py [[], ''specials'', ''offers'', ''deals'', ''coupons'', ''promotions'',
     ''financing'', ''warranty'', ''about'', ''services'', ''service'', ''contact'']"

definition OFFER_PATTERNS :: "regex list" where
  "OFFER_PATTERNS = [
     seq [WordBoundary, Rep [Digit] 1 (Some 2), Sym [chr CHR ''%''], Rep [Space] 0 None,
          lit ''off'', WordBoundary],
     word_pat ''discount'', word_pat ''coupon'', word_pat ''promo'', word_pat ''promotion'',
     word_pat ''special'', word_pat ''deal'', word_pat ''save'', word_pat ''free'',
     word_pat ''no money down'', word_pat ''starting at'',
     seq [WordBoundary, Sym [chr CHR ''$''], Rep [Space] 0 None, Rep [Digit] 1 None, WordBoundary],
     word_pat ''0%'', word_pat ''apr'', word_pat ''interest'', word_pat ''warranty'']"

definition FINANCING_PATTERNS :: "regex list" where
  "FINANCING_PATTERNS = [word_pat ''financing'', word_pat ''monthly payments'',
     word_pat ''0% interest'', word_pat ''no interest'', word_pat ''deferred'',
     word_pat ''pre-qualify'', word_pat ''credit'']"

definition WARRANTY_PATTERNS :: "regex list" where
  "WARRANTY_PATTERNS = [word_pat ''warranty'', word_pat ''lifetime'', word_pat ''guarantee'',
     word_pat ''workmanship'']"

text \<open>\<open>espa(n|\<tilde>n)ol\<close>: the second alternative is U+00F1.\<close>

definition espanol :: regex where
  "espanol = seq [lit ''espa'', Alt (lit ''n'') (Sym [Ch 241]), lit ''ol'']"

definition SPANISH_PATTERNS :: "regex list" where
  "SPANISH_PATTERNS = [
     seq [WordBoundary, lit ''se habla '', espanol, WordBoundary],
     seq [WordBoundary, lit ''hablamos '', espanol, WordBoundary],
     seq [WordBoundary, espanol, WordBoundary]]"

definition INSURED_PATTERNS :: "regex list" where
  "INSURED_PATTERNS = [word_pat ''insured'', word_pat ''fully insured'',
     word_pat ''liability insured'']"

definition BONDED_PATTERNS :: "regex list" where
  "BONDED_PATTERNS = [word_pat ''bonded'', word_pat ''licensed and bonded'']"

definition VIRTUAL_PATTERNS :: "regex list" where
  "VIRTUAL_PATTERNS = [word_pat ''virtual'', word_pat ''video consultation'',
     word_pat ''virtual estimate'', word_pat ''remote'']"

text \<open>
  The libraries the crawler calls (\<open>requests\<close>, \<open>urllib\<close>, \<open>bs4\<close>) are a parameter.
  A call that raises returns \<open>None\<close>. The answer of \<open>http_get\<close> may depend on the
  number of requests issued before it. \<open>find_meta soup k v\<close> is
  \<open>soup.find("meta", attrs={k: v})\<close>, a tag being given by its \<open>content\<close> attribute
  (\<open>tag.get("content")\<close>); \<open>title_text\<close> is \<open>soup.title.get_text()\<close> where
  \<open>soup.title\<close> exists; \<open>visible\<close> is \<open>soup.get_text(separator=" ")\<close> once the
  \<open>script\<close>, \<open>style\<close>, \<open>noscript\<close> and \<open>svg\<close> tags are removed.
\<close>

record response =
  status_code :: int
  body :: str

record 'soup web =
  http_get :: "nat \<Rightarrow> str \<Rightarrow> response option"
  urljoin :: "str \<Rightarrow> str \<Rightarrow> str option"
  BeautifulSoup :: "str \<Rightarrow> 'soup option"
  find_meta :: "'soup \<Rightarrow> str \<Rightarrow> str \<Rightarrow> str option option"
  title_text :: "'soup \<Rightarrow> str option"
  visible :: "'soup \<Rightarrow> str"

definition extract_visible_text :: "'soup web \<Rightarrow> chardb \<Rightarrow> str \<Rightarrow> str option" where
  "extract_visible_text W U html =
     (case BeautifulSoup W html of
        None \<Rightarrow> None
      | Some soup \<Rightarrow> Some (strip U (re_sub U False WS_RUN (py '' '') (visible W soup))))"

definition meta_content :: "'soup web \<Rightarrow> chardb \<Rightarrow> 'soup \<Rightarrow> str \<Rightarrow> str \<Rightarrow> str option" where
  "meta_content W U soup k v =
     (case find_meta W soup k v of
        Some (Some content) \<Rightarrow> if content \<noteq> [] then Some (strip U content) else None
      | _ \<Rightarrow> None)"

definition get_meta :: "'soup web \<Rightarrow> chardb \<Rightarrow> 'soup \<Rightarrow> str option \<Rightarrow> str option \<Rightarrow> str" where
  "get_meta W U soup name prop =
     (case (if name \<noteq> None \<and> name \<noteq> Some [] then meta_content W U soup (py ''name'') (the name)
            else None) of
        Some r \<Rightarrow> r
      | None \<Rightarrow>
          (case (if prop \<noteq> None \<and> prop \<noteq> Some []
                 then meta_content W U soup (py ''property'') (the prop) else None) of
             Some r \<Rightarrow> r
           | None \<Rightarrow> []))"

text \<open>
  The variables of the crawl loop; \<open>requests\<close> records the URLs passed to
  \<open>http_get\<close>, in order.
\<close>

record crawl_state =
  texts :: "str list"
  meta_description :: str
  og_description :: str
  title :: str
  pages_checked :: "str list"
  requests :: "str list"

definition crawl_init :: crawl_state where
  "crawl_init = \<lparr> texts = [], meta_description = [], og_description = [], title = [],
                   pages_checked = [], requests = [] \<rparr>"

text \<open>
  One run of the \<open>try\<close> block. Every exception ends the run and keeps the assignments made
  before it.
\<close>

definition visit :: "'soup web \<Rightarrow> chardb \<Rightarrow> str \<Rightarrow> str \<Rightarrow> crawl_state \<Rightarrow> crawl_state" where
  "visit W U website path st =
     (case urljoin W (rev (dropWhile (\<lambda>c. c = 47) (rev website)) @ py ''/'') path of
        None \<Rightarrow> st
      | Some url \<Rightarrow>
          let n = length (requests st);
              st = st\<lparr>requests := requests st @ [url]\<rparr>
          in case http_get W n url of
               None \<Rightarrow> st
             | Some resp \<Rightarrow>
                 if 400 \<le> status_code resp then st
                 else
                   (case BeautifulSoup W (body resp) of
                      None \<Rightarrow> st
                    | Some soup \<Rightarrow>
                        let st = (if meta_description st = []
                                  then st\<lparr>meta_description :=
                                            get_meta W U soup (Some (py ''description'')) None\<rparr>
                                  else st);
                            st = (if og_description st = []
                                  then st\<lparr>og_description :=
                                            get_meta W U soup None (Some (py ''og:description''))\<rparr>
                                  else st);
                            st = (if title st = []
                                  then (case title_text W soup of
                                          None \<Rightarrow> st
                                        | Some tt \<Rightarrow>
                                            if tt \<noteq> [] then st\<lparr>title := take 120 (strip U tt)\<rparr>
                                            else st)
                                  else st)
                        in case extract_visible_text W U (body resp) of
                             None \<Rightarrow> st
                           | Some text \<Rightarrow>
                               if length text < 200 then st
                               else st\<lparr>texts := texts st @ [text],
                                       pages_checked := pages_checked st @ [url]\<rparr>))"

fun crawl :: "'soup web \<Rightarrow> chardb \<Rightarrow> str \<Rightarrow> crawl_state \<Rightarrow> str list \<Rightarrow> crawl_state" where
  "crawl W U website st [] = st"
| "crawl W U website st (path # paths) =
     (if MAX_SITE_PAGES \<le> length (pages_checked st) then st
      else crawl W U website (visit W U website path st) paths)"

fun join :: "str \<Rightarrow> str list \<Rightarrow> str" where
  "join sep [] = []"
| "join sep [x] = x"
| "join sep (x # y # ys) = x @ sep @ join sep (y # ys)"

text \<open>The loop that compresses sentences into distinct, non-empty offers, at most three.\<close>

fun collect_offers :: "chardb \<Rightarrow> str list \<Rightarrow> str list \<Rightarrow> str list" where
  "collect_offers U acc [] = acc"
| "collect_offers U acc (s # ss) =
     (let offer = compress_to_offer U s;
          acc' = (if offer \<noteq> [] \<and> offer \<notin> set acc then acc @ [offer] else acc)
      in if 3 \<le> length acc' then acc' else collect_offers U acc' ss)"

datatype jval = S str | L "str list" | B bool

type_synonym dict = "(string \<times> jval) list"

definition assemble_bundle :: "chardb \<Rightarrow> crawl_state \<Rightarrow> dict" where
  "assemble_bundle U st =
     (let combined = join (py '' '') (texts st);
          offers_raw = find_sentences U combined OFFER_PATTERNS 10;
          financing_raw = find_sentences U combined FINANCING_PATTERNS 5;
          warranty_raw = find_sentences U combined WARRANTY_PATTERNS 3;
          spanish = find_sentences U combined SPANISH_PATTERNS 1;
          insured = find_sentences U combined INSURED_PATTERNS 1;
          bonded = find_sentences U combined BONDED_PATTERNS 1;
          virtual = find_sentences U combined VIRTUAL_PATTERNS 1;
          offers = collect_offers U [] offers_raw;
          highlight_candidates =
            collect_offers U [] (take 3 offers_raw @ take 2 financing_raw @ take 2 warranty_raw);
          highlights_tagline =
            (if title st \<noteq> [] then strip_contact_and_cta U (title st)
             else strip_contact_and_cta U
                    (if meta_description st \<noteq> [] then meta_description st else og_description st));
          highlights_tagline = take 140 highlights_tagline;
          financing_options =
            take 500 (join (py ''; '')
              (filter (\<lambda>x. x \<noteq> []) (map (strip_contact_and_cta U) (take 2 financing_raw))));
          warranty_text =
            take 500 (join (py ''; '')
              (filter (\<lambda>x. x \<noteq> []) (map (strip_contact_and_cta U) (take 2 warranty_raw))))
      in [(''status'', S (py ''ok'')),
          (''pagesChecked'', L (pages_checked st)),
          (''metaDescription'',
             S (if meta_description st \<noteq> []
                then take 300 (strip_contact_and_cta U (meta_description st)) else [])),
          (''ogDescription'',
             S (if og_description st \<noteq> []
                then take 300 (strip_contact_and_cta U (og_description st)) else [])),
          (''title'', S (if title st \<noteq> [] then strip_contact_and_cta U (title st) else [])),
          (''offers'', L (take 3 offers)),
          (''financingOptions'', S financing_options),
          (''warrantyText'', S warranty_text),
          (''spanish'', B (spanish \<noteq> [])),
          (''insured'', B (insured \<noteq> [])),
          (''bonded'', B (bonded \<noteq> [])),
          (''virtual'', B (virtual \<noteq> [])),
          (''highlights'', L (take 3 highlight_candidates)),
          (''highlightsTagline'', S highlights_tagline)])"

text \<open>The result of \<open>scrape_site_bundle\<close>, with the requests it has issued.\<close>

definition scrape_site_bundle :: "'soup web \<Rightarrow> chardb \<Rightarrow> str \<Rightarrow> dict \<times> str list" where
  "scrape_site_bundle W U website0 =
     (let website = normalize_url U website0
      in if website = [] then ([(''status'', S (py ''missing''))], [])
         else
           let st = crawl W U website crawl_init CANDIDATE_PATHS
           in if texts st = [] then ([(''status'', S (py ''unreachable''))], requests st)
              else (assemble_bundle U st, requests st))"

text \<open>
  The reading of the offer compressor's loop that the specification gives: the first
  pattern of the list that matches, with the patterns behind it and its match.
\<close>

fun first_hit :: "chardb \<Rightarrow> regex list \<Rightarrow> str \<Rightarrow> (regex list \<times> str) option" where
  "first_hit U [] t = None"
| "first_hit U (p # ps) t =
     (case re_search U True p t of None \<Rightarrow> first_hit U ps t | Some (a, m, b) \<Rightarrow> Some (ps, m))"

text \<open>
  What \<open>find_sentences\<close> admits: \<open>e\<close> is the entry made from the piece \<open>s0\<close> of the
  split text when \<open>s0\<close>, trimmed, has at least 18 characters and a match of one of the
  patterns, and \<open>e\<close> is its sanitized text cut to 240 characters.
\<close>

definition qualifies :: "chardb \<Rightarrow> regex list \<Rightarrow> str \<Rightarrow> str \<Rightarrow> bool" where
  "qualifies U rx s0 e =
     (18 \<le> length (strip U s0) \<and> list_ex (\<lambda>r. found (re_search U True r (strip U s0))) rx \<and>
      e = take 240 (strip_contact_and_cta U (strip U s0)))"

text \<open>
  Three stand-ins for the network, for concrete runs: one where every request raises, one
  that serves, at every URL, a page of 200 visible characters without metadata, and one
  that serves pages without any visible text.
\<close>

definition offline_web :: "unit web" where
  "offline_web = \<lparr> http_get = (\<lambda>n url. None), urljoin = (\<lambda>base path. Some (base @ path)),
     BeautifulSoup = (\<lambda>html. None), find_meta = (\<lambda>soup k v. None),
     title_text = (\<lambda>soup. None), visible = (\<lambda>soup. []) \<rparr>"

definition fat_web :: "unit web" where
  "fat_web = \<lparr> http_get = (\<lambda>n url. Some \<lparr> status_code = 200, body = [] \<rparr>),
     urljoin = (\<lambda>base path. Some (base @ path)),
     BeautifulSoup = (\<lambda>html. Some ()), find_meta = (\<lambda>soup k v. None),
     title_text = (\<lambda>soup. None), visible = (\<lambda>soup. replicate 200 97) \<rparr>"

definition thin_web :: "unit web" where
  "thin_web = \<lparr> http_get = (\<lambda>n url. Some \<lparr> status_code = 200, body = [] \<rparr>),
     urljoin = (\<lambda>base path. Some (base @ path)),
     BeautifulSoup = (\<lambda>html. Some ()), find_meta = (\<lambda>soup k v. None),
     title_text = (\<lambda>soup. None), visible = (\<lambda>soup. []) \<rparr>"

text \<open>
  Strings of ASCII characters, patterns whose literal characters are ASCII, and character
  tables that classify the ASCII characters as the runtime does (whatever they say of the
  other code points).
\<close>

definition ascii :: "str \<Rightarrow> bool" where
  "ascii s = (\<forall>x \<in> set s. x < 128)"

fun item_ascii :: "item \<Rightarrow> bool" where
  "item_ascii (Ch c) = (c < 128)"
| "item_ascii i = True"

fun regex_ascii :: "regex \<Rightarrow> bool" where
  "regex_ascii (Sym its) = list_all item_ascii its"
| "regex_ascii (Rep its m n) = list_all item_ascii its"
| "regex_ascii (Cat r s) = (regex_ascii r \<and> regex_ascii s)"
| "regex_ascii (Alt r s) = (regex_ascii r \<and> regex_ascii s)"
| "regex_ascii (Opt r) = regex_ascii r"
| "regex_ascii (LookBehind its) = list_all item_ascii its"
| "regex_ascii r = True"

definition ascii_agree :: "chardb \<Rightarrow> bool" where
  "ascii_agree U =
     (\<forall>x < 128. isspace U x = isspace ascii_db x \<and> isdigit U x = isdigit ascii_db x \<and>
        isword U x = isword ascii_db x \<and> (\<forall>c < 128. caseless U c x = caseless ascii_db c x))"

definition pos_ascii :: "pos \<Rightarrow> bool" where
  "pos_ascii st = (ascii (snd st) \<and> (case fst st of None \<Rightarrow> True | Some c \<Rightarrow> c < 128))"


text \<open>The character before the position that follows \<open>a\<close> in a subject \<open>a @ b\<close>.\<close>

definition before :: "str \<Rightarrow> cp option" where
  "before a = (if a = [] then None else Some (last a))"

section \<open>Substitution and trimming never lengthen a string\<close>

lemma length_rstrip: "length (rstrip U s) \<le> length s"
  unfolding rstrip_def by (metis length_dropWhile_le length_rev)

lemma length_strip: "length (strip U s) \<le> length s"
  unfolding strip_def by (meson length_rstrip length_dropWhile_le le_trans)

lemma sub_go_shrink: "length (sub_go U ic r [] k p xs) \<le> length xs"
proof (induction xs arbitrary: k p)
  case Nil
  show ?case by simp
next
  case (Cons x xs)
  show ?case
    using Cons.IH [of "k - 1" "Some x"] Cons.IH [of 0 "Some x"]
      Cons.IH [of "length xs - length (snd (hd (ms U ic r (p, x # xs))))" "Some x"]
    by (auto split: list.splits simp: le_SucI)
qed

lemma re_sub_shrink: "length (re_sub U ic r [] s) \<le> length s"
  by (simp add: re_sub_def sub_go_shrink)

section \<open>On ASCII text only the ASCII part of the tables is read\<close>

lemma item_ok_ascii:
  "ascii_agree U \<Longrightarrow> x < 128 \<Longrightarrow> ic \<longrightarrow> item_ascii i \<Longrightarrow>
   item_ok U ic i x = item_ok ascii_db ic i x"
  by (cases i) (auto simp: ascii_agree_def)

lemma in_set_ascii:
  "ascii_agree U \<Longrightarrow> x < 128 \<Longrightarrow> ic \<longrightarrow> list_all item_ascii its \<Longrightarrow>
   in_set U ic its x = in_set ascii_db ic its x"
  unfolding in_set_def by (induction its) (auto simp: item_ok_ascii)

lemma rep_cong:
  "(\<And>x. x \<in> set xs \<Longrightarrow> P x = Q x) \<Longrightarrow> rep P m n p xs = rep Q m n p xs"
  by (induction xs arbitrary: m n p) auto

lemma rep_pos_ascii:
  "st \<in> set (rep P m n p xs) \<Longrightarrow> pos_ascii (p, xs) \<Longrightarrow> pos_ascii st"
proof (induction xs arbitrary: m n p)
  case Nil
  then show ?case by (auto split: if_splits)
next
  case (Cons x xs)
  from Cons.prems(2) have "pos_ascii (Some x, xs)"
    by (simp add: pos_ascii_def ascii_def)
  with Cons show ?case by (auto split: if_splits)
qed

lemma ms_pos_ascii:
  "st' \<in> set (ms U ic r st) \<Longrightarrow> pos_ascii st \<Longrightarrow> pos_ascii st'"
proof (induction r arbitrary: st st')
  case (Sym its)
  then show ?case
    by (cases st; cases "snd st") (auto simp: pos_ascii_def ascii_def split: if_splits)
next
  case (Rep its m n)
  then show ?case by (cases st) (auto dest: rep_pos_ascii)
next
  case (Cat r s)
  from Cat.prems(1) obtain mid where m: "mid \<in> set (ms U ic r st)" "st' \<in> set (ms U ic s mid)"
    by auto
  from Cat.IH(1) [OF m(1) Cat.prems(2)] have "pos_ascii mid" .
  from Cat.IH(2) [OF m(2) this] show ?case .
next
  case (LookBehind its)
  then show ?case by (cases st) (auto split: option.splits if_splits)
qed (auto split: if_splits)

lemma ms_ascii:
  "ascii_agree U \<Longrightarrow> ic \<longrightarrow> regex_ascii r \<Longrightarrow> pos_ascii st \<Longrightarrow>
   ms U ic r st = ms ascii_db ic r st"
proof (induction r arbitrary: st)
  case Eps
  show ?case by simp
next
  case (Sym its)
  then show ?case
    by (cases st; cases "snd st") (auto simp: pos_ascii_def ascii_def in_set_ascii)
next
  case (Rep its m n)
  obtain p xs where st: "st = (p, xs)" by (cases st)
  have "rep (in_set U ic its) m n p xs = rep (in_set ascii_db ic its) m n p xs"
    using Rep by (intro rep_cong in_set_ascii) (auto simp: st pos_ascii_def ascii_def)
  then show ?case by (simp add: st)
next
  case (Cat r s)
  have 1: "ms U ic r st = ms ascii_db ic r st" using Cat by simp
  have 2: "ms U ic s st' = ms ascii_db ic s st'" if "st' \<in> set (ms ascii_db ic r st)" for st'
    using Cat that ms_pos_ascii by simp
  show ?case using 1 2 by (simp cong: map_cong)
next
  case (Alt r s)
  then show ?case by simp
next
  case (Opt r)
  then show ?case by simp
next
  case WordBoundary
  then show ?case
    by (cases st; cases "snd st"; cases "fst st")
       (auto simp: pos_ascii_def ascii_def word_at_def ascii_agree_def)
next
  case EndOfString
  show ?case by (cases st) simp
next
  case (LookBehind its)
  then show ?case
    by (cases st; cases "fst st") (auto simp: pos_ascii_def in_set_ascii)
qed


lemma pos_ascii_Cons: "x < 128 \<Longrightarrow> ascii xs \<Longrightarrow> pos_ascii (Some x, xs)"
  by (simp add: pos_ascii_def)

lemma ascii_Cons [simp]: "ascii (x # xs) = (x < 128 \<and> ascii xs)"
  by (auto simp: ascii_def)

lemma ascii_Nil [simp]: "ascii []"
  by (simp add: ascii_def)

lemma ascii_append [simp]: "ascii (xs @ ys) = (ascii xs \<and> ascii ys)"
  by (auto simp: ascii_def)

lemma ascii_subset: "set ys \<subseteq> set xs \<Longrightarrow> ascii xs \<Longrightarrow> ascii ys"
  by (auto simp: ascii_def)

lemma ascii_take: "ascii xs \<Longrightarrow> ascii (take n xs)"
  by (rule ascii_subset [OF set_take_subset])

lemma ascii_dropWhile: "ascii xs \<Longrightarrow> ascii (dropWhile P xs)"
  by (rule ascii_subset [OF set_dropWhileD [THEN subsetI]])

lemma ascii_rstrip: "ascii s \<Longrightarrow> ascii (rstrip V s)"
  unfolding rstrip_def by (rule ascii_subset [of _ s]) (auto dest: set_dropWhileD)

lemma ascii_strip: "ascii s \<Longrightarrow> ascii (strip V s)"
  unfolding strip_def by (intro ascii_rstrip ascii_dropWhile)

lemma find_match_ascii:
  "ascii_agree U \<Longrightarrow> ic \<longrightarrow> regex_ascii r \<Longrightarrow> pos_ascii (p, xs) \<Longrightarrow>
   find_match U ic r p xs = find_match ascii_db ic r p xs"
proof (induction xs arbitrary: p)
  case Nil
  then show ?case by (simp add: ms_ascii)
next
  case (Cons x xs)
  from Cons.prems(3) have "pos_ascii (Some x, xs)" by (simp add: pos_ascii_def)
  from Cons.IH [OF Cons.prems(1,2) this] Cons.prems show ?case
    by (auto simp: ms_ascii split: list.splits)
qed

lemma ascii_find_match:
  "find_match V ic r p xs = Some (a, m, b) \<Longrightarrow> ascii xs \<Longrightarrow> ascii m"
proof (induction xs arbitrary: p a)
  case Nil
  then show ?case by (auto split: list.splits)
next
  case (Cons x xs)
  show ?case
  proof (cases "ms V ic r (p, x # xs)")
    case Nil
    with Cons.prems obtain a' where "find_match V ic r (Some x) xs = Some (a', m, b)"
      by (auto split: option.splits)
    from Cons.IH [OF this] Cons.prems(2) show ?thesis by simp
  next
    case (Cons st sts)
    with Cons.prems(1) have "m = take (Suc (length xs) - length (snd st)) (x # xs)"
      by (cases st) auto
    then show ?thesis using Cons.prems(2) ascii_take by metis
  qed
qed

lemma sub_go_ascii:
  "ascii_agree U \<Longrightarrow> ic \<longrightarrow> regex_ascii r \<Longrightarrow> pos_ascii (p, xs) \<Longrightarrow>
   sub_go U ic r repl k p xs = sub_go ascii_db ic r repl k p xs"
proof (induction xs arbitrary: p k)
  case Nil
  then show ?case by (simp add: ms_ascii)
next
  case (Cons x xs)
  from Cons.prems(3) have "pos_ascii (Some x, xs)" by (simp add: pos_ascii_def)
  from Cons.IH [OF Cons.prems(1,2) this] Cons.prems show ?case
    by (auto simp: ms_ascii split: list.splits)
qed

lemma ascii_sub_go:
  "ascii xs \<Longrightarrow> ascii repl \<Longrightarrow> ascii (sub_go V ic r repl k p xs)"
  by (induction xs arbitrary: p k) (auto split: list.splits)

lemma re_sub_ascii:
  "ascii_agree U \<Longrightarrow> ic \<longrightarrow> regex_ascii r \<Longrightarrow> ascii s \<Longrightarrow>
   re_sub U ic r repl s = re_sub ascii_db ic r repl s"
  unfolding re_sub_def by (rule sub_go_ascii) (simp_all add: pos_ascii_def)

lemma ascii_re_sub: "ascii s \<Longrightarrow> ascii repl \<Longrightarrow> ascii (re_sub V ic r repl s)"
  unfolding re_sub_def by (rule ascii_sub_go)

lemma re_search_ascii:
  "ascii_agree U \<Longrightarrow> ic \<longrightarrow> regex_ascii r \<Longrightarrow> ascii s \<Longrightarrow>
   re_search U ic r s = re_search ascii_db ic r s"
  unfolding re_search_def by (rule find_match_ascii) (simp_all add: pos_ascii_def)

lemma strip_ascii: "ascii_agree U \<Longrightarrow> ascii s \<Longrightarrow> strip U s = strip ascii_db s"
proof -
  assume U: "ascii_agree U" and s: "ascii s"
  have d: "dropWhile (isspace U) t = dropWhile (isspace ascii_db) t" if "ascii t" for t
    using that U by (intro dropWhile_cong) (auto simp: ascii_def ascii_agree_def)
  have "ascii (rev (dropWhile (isspace ascii_db) s))"
    using ascii_dropWhile [OF s] by (simp add: ascii_def)
  then show ?thesis by (simp add: strip_def rstrip_def d s)
qed

lemma rstrip_ascii: "ascii_agree U \<Longrightarrow> ascii s \<Longrightarrow> rstrip U s = rstrip ascii_db s"
proof -
  assume U: "ascii_agree U" and s: "ascii s"
  have "dropWhile (isspace U) (rev s) = dropWhile (isspace ascii_db) (rev s)"
    using s U by (intro dropWhile_cong) (auto simp: ascii_def ascii_agree_def)
  then show ?thesis by (simp add: rstrip_def)
qed

lemma regex_ascii_seq: "regex_ascii (seq rs) = list_all regex_ascii rs"
  unfolding seq_def by (induction rs) auto

lemma regex_ascii_lit: "regex_ascii (lit w) = list_all (\<lambda>c. (of_char c :: nat) < 128) w"
  unfolding lit_def by (induction w) auto

lemma patterns_ascii:
  "regex_ascii URL_REGEX" "regex_ascii PHONE_REGEX" "list_all regex_ascii CTA_PATTERNS"
  "list_all regex_ascii offer_shapes" "regex_ascii WS_RUN" "regex_ascii LAST_WORD"
  by (simp_all add: URL_REGEX_def PHONE_REGEX_def CTA_PATTERNS_def offer_shapes_def WS_RUN_def
      LAST_WORD_def word_pat_def regex_ascii_seq regex_ascii_lit chr_def)

lemma ascii_py_blank: "ascii (py '' '')"
  by (simp add: py_def)

lemma ascii_agree_self: "ascii_agree ascii_db"
  by (simp add: ascii_agree_def)

lemma cta_fold_ascii:
  "ascii_agree U \<Longrightarrow> list_all regex_ascii rs \<Longrightarrow> ascii t \<Longrightarrow>
   foldl (\<lambda>t pat. re_sub U True pat [] t) t rs = foldl (\<lambda>t pat. re_sub ascii_db True pat [] t) t rs \<and>
   ascii (foldl (\<lambda>t pat. re_sub ascii_db True pat [] t) t rs)"
proof (induction rs arbitrary: t)
  case Nil
  then show ?case by simp
next
  case (Cons r rs)
  have 1: "re_sub U True r [] t = re_sub ascii_db True r [] t"
    using Cons.prems by (intro re_sub_ascii) auto
  have 2: "ascii (re_sub ascii_db True r [] t)"
    using Cons.prems by (intro ascii_re_sub) auto
  from Cons.prems(2) have 3: "list_all regex_ascii rs" by simp
  from Cons.IH [OF Cons.prems(1) 3 2] show ?case by (simp add: 1)
qed

text \<open>The sanitizer as the chain of its steps.\<close>

lemma sanitize_steps:
  "strip_contact_and_cta V s =
     (if strip V s = [] then []
      else strip V (re_sub V False SEPARATOR_RUN (py '' '')
             (strip V (re_sub V False WS_RUN (py '' '')
               (foldl (\<lambda>t pat. re_sub V True pat [] t)
                  (re_sub V False PHONE_REGEX [] (re_sub V True URL_REGEX [] (strip V s)))
                  CTA_PATTERNS)))))"
  by (simp add: strip_contact_and_cta_def clean_str_def Let_def)

lemma sanitize_ascii:
  assumes U: "ascii_agree U" and s: "ascii s"
  shows "strip_contact_and_cta U s = strip_contact_and_cta ascii_db s \<and>
         ascii (strip_contact_and_cta ascii_db s)"
proof -
  let ?A = ascii_db
  define t0 where "t0 = strip ?A s"
  define t1 where "t1 = re_sub ?A True URL_REGEX [] t0"
  define t2 where "t2 = re_sub ?A False PHONE_REGEX [] t1"
  define t3 where "t3 = foldl (\<lambda>t pat. re_sub ?A True pat [] t) t2 CTA_PATTERNS"
  define u4 where "u4 = re_sub ?A False WS_RUN (py '' '') t3"
  define t4 where "t4 = strip ?A u4"
  define u5 where "u5 = re_sub ?A False SEPARATOR_RUN (py '' '') t4"
  define t5 where "t5 = strip ?A u5"
  have a0: "ascii t0" unfolding t0_def by (rule ascii_strip [OF s])
  have a1: "ascii t1" unfolding t1_def by (rule ascii_re_sub [OF a0]) simp
  have a2: "ascii t2" unfolding t2_def by (rule ascii_re_sub [OF a1]) simp
  have f: "foldl (\<lambda>t pat. re_sub U True pat [] t) t2 CTA_PATTERNS = t3 \<and> ascii t3"
    unfolding t3_def by (rule cta_fold_ascii [OF U patterns_ascii(3) a2])
  then have a3: "ascii t3" and e3: "foldl (\<lambda>t pat. re_sub U True pat [] t) t2 CTA_PATTERNS = t3"
    by simp_all
  have b4: "ascii u4" unfolding u4_def by (rule ascii_re_sub [OF a3 ascii_py_blank])
  have a4: "ascii t4" unfolding t4_def by (rule ascii_strip [OF b4])
  have b5: "ascii u5" unfolding u5_def by (rule ascii_re_sub [OF a4 ascii_py_blank])
  have a5: "ascii t5" unfolding t5_def by (rule ascii_strip [OF b5])
  have e0: "strip U s = t0" unfolding t0_def by (rule strip_ascii [OF U s])
  have e1: "re_sub U True URL_REGEX [] t0 = t1"
    unfolding t1_def by (rule re_sub_ascii [OF U _ a0]) (simp add: patterns_ascii)
  have e2: "re_sub U False PHONE_REGEX [] t1 = t2"
    unfolding t2_def by (rule re_sub_ascii [OF U _ a1]) simp
  have c4: "re_sub U False WS_RUN (py '' '') t3 = u4"
    unfolding u4_def by (rule re_sub_ascii [OF U _ a3]) simp
  have e4: "strip U u4 = t4" unfolding t4_def by (rule strip_ascii [OF U b4])
  have c5: "re_sub U False SEPARATOR_RUN (py '' '') t4 = u5"
    unfolding u5_def by (rule re_sub_ascii [OF U _ a4]) simp
  have e5: "strip U u5 = t5" unfolding t5_def by (rule strip_ascii [OF U b5])
  have L: "strip_contact_and_cta U s = (if t0 = [] then [] else t5)"
    unfolding sanitize_steps [of U] e0 e1 e2 e3 c4 e4 c5 e5 ..
  have R: "strip_contact_and_cta ?A s = (if t0 = [] then [] else t5)"
    unfolding sanitize_steps [of ?A] t5_def u5_def t4_def u4_def t3_def t2_def t1_def t0_def ..
  show ?thesis using L R a5 by simp
qed

lemma apply_patterns_ascii:
  "ascii_agree U \<Longrightarrow> list_all regex_ascii ps \<Longrightarrow> ascii t \<Longrightarrow>
   apply_patterns U ps t = apply_patterns ascii_db ps t \<and> ascii (apply_patterns ascii_db ps t)"
proof (induction ps arbitrary: t)
  case Nil
  then show ?case by simp
next
  case (Cons p ps)
  let ?t' = "case re_search ascii_db True p t of None \<Rightarrow> t | Some (a, m, b) \<Rightarrow> m"
  have 1: "re_search U True p t = re_search ascii_db True p t"
    using Cons.prems by (intro re_search_ascii) auto
  have 2: "ascii ?t'"
    using Cons.prems(3) ascii_find_match [of ascii_db True p None t]
    by (auto simp: re_search_def split: option.splits)
  from Cons.prems(2) have 3: "list_all regex_ascii ps" by simp
  from Cons.IH [OF Cons.prems(1) 3 2] show ?case by (simp add: 1)
qed

lemma compress_steps:
  "compress_to_offer V s =
     (if strip_contact_and_cta V s = [] then []
      else if found (re_search V True URL_REGEX
                (if 30 < length (strip V (re_sub V False WS_RUN (py '' '')
                                  (apply_patterns V offer_shapes (strip_contact_and_cta V s))))
                 then if strip V (re_sub V False LAST_WORD []
                            (rstrip V (take 30 (strip V (re_sub V False WS_RUN (py '' '')
                               (apply_patterns V offer_shapes (strip_contact_and_cta V s))))))) = []
                      then strip V (take 30 (strip_contact_and_cta V s))
                      else strip V (re_sub V False LAST_WORD []
                            (rstrip V (take 30 (strip V (re_sub V False WS_RUN (py '' '')
                               (apply_patterns V offer_shapes (strip_contact_and_cta V s)))))))
                 else strip V (re_sub V False WS_RUN (py '' '')
                         (apply_patterns V offer_shapes (strip_contact_and_cta V s))))) \<or>
              found (re_search V False PHONE_REGEX
                (if 30 < length (strip V (re_sub V False WS_RUN (py '' '')
                                  (apply_patterns V offer_shapes (strip_contact_and_cta V s))))
                 then if strip V (re_sub V False LAST_WORD []
                            (rstrip V (take 30 (strip V (re_sub V False WS_RUN (py '' '')
                               (apply_patterns V offer_shapes (strip_contact_and_cta V s))))))) = []
                      then strip V (take 30 (strip_contact_and_cta V s))
                      else strip V (re_sub V False LAST_WORD []
                            (rstrip V (take 30 (strip V (re_sub V False WS_RUN (py '' '')
                               (apply_patterns V offer_shapes (strip_contact_and_cta V s)))))))
                 else strip V (re_sub V False WS_RUN (py '' '')
                         (apply_patterns V offer_shapes (strip_contact_and_cta V s)))))
      then []
      else (if 30 < length (strip V (re_sub V False WS_RUN (py '' '')
                                  (apply_patterns V offer_shapes (strip_contact_and_cta V s))))
                 then if strip V (re_sub V False LAST_WORD []
                            (rstrip V (take 30 (strip V (re_sub V False WS_RUN (py '' '')
                               (apply_patterns V offer_shapes (strip_contact_and_cta V s))))))) = []
                      then strip V (take 30 (strip_contact_and_cta V s))
                      else strip V (re_sub V False LAST_WORD []
                            (rstrip V (take 30 (strip V (re_sub V False WS_RUN (py '' '')
                               (apply_patterns V offer_shapes (strip_contact_and_cta V s)))))))
                 else strip V (re_sub V False WS_RUN (py '' '')
                         (apply_patterns V offer_shapes (strip_contact_and_cta V s)))))"
  by (simp add: compress_to_offer_def Let_def MAX_OFFER_LEN_def)

lemma compress_ascii:
  assumes U: "ascii_agree U" and s: "ascii s"
  shows "compress_to_offer U s = compress_to_offer ascii_db s"
proof -
  let ?A = ascii_db
  define t0 where "t0 = strip_contact_and_cta ?A s"
  define t1 where "t1 = apply_patterns ?A offer_shapes t0"
  define u2 where "u2 = re_sub ?A False WS_RUN (py '' '') t1"
  define t2 where "t2 = strip ?A u2"
  define t3 where "t3 = rstrip ?A (take 30 t2)"
  define u4 where "u4 = re_sub ?A False LAST_WORD [] t3"
  define t4 where "t4 = strip ?A u4"
  define t5 where "t5 = strip ?A (take 30 t0)"
  define t6 where "t6 = (if 30 < length t2 then if t4 = [] then t5 else t4 else t2)"
  have e0: "strip_contact_and_cta U s = t0" and a0: "ascii t0"
    unfolding t0_def using sanitize_ascii [OF U s] by simp_all
  have p: "apply_patterns U offer_shapes t0 = t1 \<and> ascii t1"
    unfolding t1_def by (rule apply_patterns_ascii [OF U patterns_ascii(4) a0])
  then have e1: "apply_patterns U offer_shapes t0 = t1" and a1: "ascii t1" by simp_all
  have c2: "re_sub U False WS_RUN (py '' '') t1 = u2"
    unfolding u2_def by (rule re_sub_ascii [OF U _ a1]) simp
  have b2: "ascii u2" unfolding u2_def by (rule ascii_re_sub [OF a1 ascii_py_blank])
  have e2: "strip U u2 = t2" unfolding t2_def by (rule strip_ascii [OF U b2])
  have a2: "ascii t2" unfolding t2_def by (rule ascii_strip [OF b2])
  have e3: "rstrip U (take 30 t2) = t3"
    unfolding t3_def by (rule rstrip_ascii [OF U ascii_take [OF a2]])
  have a3: "ascii t3" unfolding t3_def by (rule ascii_rstrip [OF ascii_take [OF a2]])
  have c4: "re_sub U False LAST_WORD [] t3 = u4"
    unfolding u4_def by (rule re_sub_ascii [OF U _ a3]) simp
  have b4: "ascii u4" unfolding u4_def by (rule ascii_re_sub [OF a3]) simp
  have e4: "strip U u4 = t4" unfolding t4_def by (rule strip_ascii [OF U b4])
  have a4: "ascii t4" unfolding t4_def by (rule ascii_strip [OF b4])
  have e5: "strip U (take 30 t0) = t5"
    unfolding t5_def by (rule strip_ascii [OF U ascii_take [OF a0]])
  have a5: "ascii t5" unfolding t5_def by (rule ascii_strip [OF ascii_take [OF a0]])
  have a6: "ascii t6" unfolding t6_def using a2 a4 a5 by simp
  have s1: "re_search U True URL_REGEX t6 = re_search ?A True URL_REGEX t6"
    by (rule re_search_ascii [OF U _ a6]) (simp add: patterns_ascii)
  have s2: "re_search U False PHONE_REGEX t6 = re_search ?A False PHONE_REGEX t6"
    by (rule re_search_ascii [OF U _ a6]) simp
  have L: "compress_to_offer U s =
      (if t0 = [] then []
       else if found (re_search ?A True URL_REGEX t6) \<or> found (re_search ?A False PHONE_REGEX t6)
            then [] else t6)"
    unfolding compress_steps [of U] e0 e1 c2 e2 e3 c4 e4 e5 t6_def [symmetric] s1 s2 ..
  have R: "compress_to_offer ?A s =
      (if t0 = [] then []
       else if found (re_search ?A True URL_REGEX t6) \<or> found (re_search ?A False PHONE_REGEX t6)
            then [] else t6)"
    unfolding compress_steps [of ?A] t6_def t5_def t4_def u4_def t3_def t2_def u2_def t1_def t0_def ..
  show ?thesis using L R by simp
qed

lemma normalize_phone_ascii:
  assumes U: "ascii_agree U" and s: "ascii s"
  shows "normalize_phone U s = normalize_phone ascii_db s"
proof -
  have 1: "re_sub U False (Rep [NonDigit] 1 None) [] (strip U s)
      = re_sub ascii_db False (Rep [NonDigit] 1 None) [] (strip ascii_db s)"
    unfolding strip_ascii [OF U s] by (rule re_sub_ascii [OF U _ ascii_strip [OF s]]) simp
  show ?thesis unfolding normalize_phone_def clean_str_def option.case 1 ..
qed

section \<open>The sanitizer\<close>

text \<open>
  Claim C1 (the code departs from it). The sanitizer removes the matches of the URL
  pattern, then those of the phone pattern, and only then the call-to-action words and
  the separators, and it never looks again: what the later steps join can match. In
  \<open>555 call 123 4567\<close> nothing matches the phone pattern; with \<open>call\<close> removed and
  the blanks collapsed the output is \<open>555 123 4567\<close>, which the phone pattern matches
  as a whole. In \<open>http:call//x\<close> nothing matches the URL pattern; the output is
  \<open>http://x\<close>, which it matches as a whole.
\<close>

theorem sanitizer_leaks_contact:
  "re_search ascii_db False PHONE_REGEX (py ''555 call 123 4567'') = None \<and>
   strip_contact_and_cta ascii_db (py ''555 call 123 4567'') = py ''555 123 4567'' \<and>
   re_search ascii_db False PHONE_REGEX (py ''555 123 4567'') = Some ([], py ''555 123 4567'', []) \<and>
   re_search ascii_db True URL_REGEX (py ''http:call//x'') = None \<and>
   strip_contact_and_cta ascii_db (py ''http:call//x'') = py ''http://x'' \<and>
   re_search ascii_db True URL_REGEX (py ''http://x'') = Some ([], py ''http://x'', [])"
  by code_simp

text \<open>
  Claim C5 (the code departs from it). Runs of whitespace are collapsed before the
  separators are replaced by blanks, so a separator between blanks leaves three blanks:
  \<open>a | b\<close> becomes \<open>a\<close>, three blanks, \<open>b\<close>.
\<close>

theorem sanitizer_leaves_blank_run:
  "strip_contact_and_cta ascii_db (py ''a | b'') = [97, 32, 32, 32, 98]"
  by code_simp

section \<open>The offer compressor\<close>

text \<open>
  Claim C2, as amended. The loop has no \<open>break\<close>. The first pattern of the list that
  matches the text replaces it by its match; the patterns behind it are then applied to
  that match (never to the rest of the text), so one of them that matches inside it
  narrows the text again, and where none does the output of the loop is the match of the
  first pattern. A text that no pattern matches is left as it is.
\<close>

theorem apply_patterns_narrows:
  "(first_hit U ps t = None \<longrightarrow> apply_patterns U ps t = t) \<and>
   (\<forall>rest m. first_hit U ps t = Some (rest, m) \<longrightarrow>
      apply_patterns U ps t = apply_patterns U rest m \<and>
      (first_hit U rest m = None \<longrightarrow> apply_patterns U ps t = m))"
proof -
  have none: "first_hit U qs u = None \<Longrightarrow> apply_patterns U qs u = u" for qs u
    by (induction qs) (auto split: option.splits)
  have some: "first_hit U ps t = Some (rest, m) \<Longrightarrow> apply_patterns U ps t = apply_patterns U rest m"
    for rest m
    by (induction ps) (auto split: option.splits)
  show ?thesis using none some by auto
qed

lemma first_hit_percent_eval:
  "first_hit ascii_db offer_shapes (py ''20% off'') = Some (drop 1 offer_shapes, py ''20% off'') \<and>
   first_hit ascii_db (drop 1 offer_shapes) (py ''20% off'') = None \<and>
   first_hit ascii_db offer_shapes (py ''ok'') = None"
  by code_simp

theorem apply_patterns_narrows_witness:
  "first_hit ascii_db offer_shapes (py ''20% off'') = Some (drop 1 offer_shapes, py ''20% off'') \<and>
   first_hit ascii_db (drop 1 offer_shapes) (py ''20% off'') = None \<and>
   apply_patterns ascii_db offer_shapes (py ''20% off'') = py ''20% off'' \<and>
   first_hit ascii_db offer_shapes (py ''ok'') = None \<and>
   apply_patterns ascii_db offer_shapes (py ''ok'') = py ''ok''"
proof -
  have a: "apply_patterns ascii_db offer_shapes (py ''20% off'') = py ''20% off''"
    using apply_patterns_narrows [of ascii_db offer_shapes "py ''20% off''"] first_hit_percent_eval
    by blast
  have b: "apply_patterns ascii_db offer_shapes (py ''ok'') = py ''ok''"
    using apply_patterns_narrows [of ascii_db offer_shapes "py ''ok''"] first_hit_percent_eval
    by simp
  show ?thesis using a b first_hit_percent_eval by blast
qed

text \<open>
  Claim C2 as stated fails: in \<open>free financing available\<close> the first pattern that matches
  is the third (\<open>free\<close> and one or two words), and its match is the whole text; the fifth
  pattern (\<open>financing available\<close>) is applied all the same, to that match, and the
  output is \<open>financing available\<close>.
\<close>

theorem first_match_not_final:
  "first_hit ascii_db offer_shapes (strip_contact_and_cta ascii_db (py ''free financing available''))
     = Some (drop 3 offer_shapes, py ''free financing available'') \<and>
   compress_to_offer ascii_db (py ''free financing available'') = py ''financing available'' \<and>
   py ''financing available'' \<noteq> py ''free financing available''"
  by code_simp

lemma compress_to_offer_shape:
  "compress_to_offer U text = [] \<or>
   (\<exists>t. length t \<le> 30 \<and> compress_to_offer U text = t \<and>
        re_search U True URL_REGEX t = None \<and> re_search U False PHONE_REGEX t = None)"
proof -
  have a: "length (rstrip U (take 30 t)) \<le> 30" for t
    by (rule le_trans [OF length_rstrip]) simp
  have b: "length (strip U (re_sub U False LAST_WORD [] (rstrip U (take 30 t)))) \<le> 30" for t
    by (rule le_trans [OF length_strip], rule le_trans [OF re_sub_shrink], rule a)
  have c: "length (strip U (take 30 t)) \<le> 30" for t
    by (rule le_trans [OF length_strip]) simp
  show ?thesis
    unfolding compress_to_offer_def Let_def MAX_OFFER_LEN_def found_def
    using a b c by (auto simp del: not_None_eq)
qed

text \<open>
  \<open>re.search\<close> returns \<open>None\<close> exactly when at no position of the subject a match
  starts: the subject has no substring that the pattern matches where it stands.
\<close>

lemma find_match_None_iff:
  "find_match U ic r p xs = None \<longleftrightarrow>
   (\<forall>a b. xs = a @ b \<longrightarrow> ms U ic r (if a = [] then p else Some (last a), b) = [])"
proof (induction xs arbitrary: p)
  case Nil
  show ?case by (auto split: list.splits)
next
  case (Cons x xs)
  have split: "(\<forall>a b. x # xs = a @ b \<longrightarrow> Q a b) \<longleftrightarrow>
      (Q [] (x # xs) \<and> (\<forall>a' b. xs = a' @ b \<longrightarrow> Q (x # a') b))" for Q
    by (auto simp: Cons_eq_append_conv)
  have "find_match U ic r p (x # xs) = None \<longleftrightarrow>
      ms U ic r (p, x # xs) = [] \<and> find_match U ic r (Some x) xs = None"
    by (auto split: list.splits option.splits)
  also have "\<dots> \<longleftrightarrow> ms U ic r (p, x # xs) = [] \<and>
      (\<forall>a' b. xs = a' @ b \<longrightarrow> ms U ic r (if a' = [] then Some x else Some (last a'), b) = [])"
    unfolding Cons.IH ..
  also have "\<dots> \<longleftrightarrow>
      (\<forall>a b. x # xs = a @ b \<longrightarrow> ms U ic r (if a = [] then p else Some (last a), b) = [])"
    unfolding split by auto
  finally show ?case .
qed

lemma re_search_None_iff:
  "re_search U ic r s = None \<longleftrightarrow> (\<forall>a b. s = a @ b \<longrightarrow> ms U ic r (before a, b) = [])"
  unfolding re_search_def find_match_None_iff before_def ..

text \<open>
  Claim C3. For every input string (and whatever the character tables are),
  \<open>compress_to_offer\<close> returns at most 30 characters, and a result that is not empty
  has no match of the URL pattern and none of the phone pattern: \<open>re.search\<close> finds
  neither, that is, at no position of the result does a match of either pattern start.
\<close>

theorem compress_to_offer_clean:
  "length (compress_to_offer U text) \<le> 30 \<and>
   (compress_to_offer U text \<noteq> [] \<longrightarrow>
      re_search U True URL_REGEX (compress_to_offer U text) = None \<and>
      re_search U False PHONE_REGEX (compress_to_offer U text) = None \<and>
      (\<forall>a b. compress_to_offer U text = a @ b \<longrightarrow>
         ms U True URL_REGEX (before a, b) = [] \<and> ms U False PHONE_REGEX (before a, b) = []))"
proof -
  from compress_to_offer_shape [of U "text"]
  have "length (compress_to_offer U text) \<le> 30" by auto
  moreover have "re_search U True URL_REGEX (compress_to_offer U text) = None \<and>
      re_search U False PHONE_REGEX (compress_to_offer U text) = None"
    if "compress_to_offer U text \<noteq> []"
    using compress_to_offer_shape [of U "text"] that by auto
  ultimately show ?thesis
    using re_search_None_iff [of U True URL_REGEX "compress_to_offer U text"]
      re_search_None_iff [of U False PHONE_REGEX "compress_to_offer U text"]
    by blast
qed

lemma compress_ok_eval: "compress_to_offer ascii_db (py ''ok'') = py ''ok''"
  by code_simp

theorem compress_to_offer_clean_witness:
  "compress_to_offer ascii_db (py ''ok'') \<noteq> [] \<and>
   compress_to_offer ascii_db (py ''ok'') = [] @ py ''ok'' \<and>
   length (compress_to_offer ascii_db (py ''ok'')) \<le> 30 \<and>
   re_search ascii_db True URL_REGEX (compress_to_offer ascii_db (py ''ok'')) = None \<and>
   re_search ascii_db False PHONE_REGEX (compress_to_offer ascii_db (py ''ok'')) = None \<and>
   ms ascii_db True URL_REGEX (before [], py ''ok'') = [] \<and>
   ms ascii_db False PHONE_REGEX (before [], py ''ok'') = []"
proof -
  have ne: "compress_to_offer ascii_db (py ''ok'') \<noteq> []"
    unfolding compress_ok_eval by (simp add: py_def)
  have ap: "compress_to_offer ascii_db (py ''ok'') = [] @ py ''ok''"
    unfolding compress_ok_eval by simp
  from compress_to_offer_clean [of ascii_db "py ''ok''"] ne ap show ?thesis
    by blast
qed

lemma compress_offer_eval:
  "compress_to_offer ascii_db (py ''Get 20% off your next service, call now!'') = py ''20% off''"
  by code_simp

lemma ascii_offer_text: "ascii (py ''Get 20% off your next service, call now!'')"
  by (simp add: py_def)

text \<open>
  Claim C8. \<open>compress_to_offer\<close> applied to
  \<open>Get 20% off your next service, call now!\<close> returns \<open>20% off\<close>, with any
  character tables that classify the ASCII characters as the runtime does.
\<close>

theorem compress_to_offer_example:
  "ascii_agree U \<Longrightarrow>
   compress_to_offer U (py ''Get 20% off your next service, call now!'') = py ''20% off''"
  using compress_ascii [OF _ ascii_offer_text, of U] compress_offer_eval by simp

theorem compress_to_offer_example_witness:
  "ascii_agree ascii_db \<and>
   compress_to_offer ascii_db (py ''Get 20% off your next service, call now!'') = py ''20% off''"
  using compress_to_offer_example [OF ascii_agree_self] ascii_agree_self by blast

section \<open>The sentence matcher\<close>

lemma collect_hits_length:
  "hits = [] \<or> int (length hits) < max_items \<Longrightarrow>
   int (length (collect_hits U rx max_items hits ss)) \<le> max 1 max_items"
proof (induction ss arbitrary: hits)
  case Nil
  then show ?case by auto
next
  case (Cons s0 ss)
  show ?case
    using Cons.prems Cons.IH [of hits]
      Cons.IH [of "hits @ [take 240 (strip_contact_and_cta U (strip U s0))]"]
    by (auto simp: Let_def)
qed

lemma collect_hits_entries:
  "e \<in> set (collect_hits U rx max_items hits ss) \<Longrightarrow>
   e \<in> set hits \<or> (e \<noteq> [] \<and> (\<exists>s0 \<in> set ss. qualifies U rx s0 e))"
proof (induction ss arbitrary: hits)
  case Nil
  then show ?case by simp
next
  case (Cons s0 ss)
  show ?case
    using Cons.prems Cons.IH [of hits]
      Cons.IH [of "hits @ [take 240 (strip_contact_and_cta U (strip U s0))]"]
    by (auto simp: Let_def qualifies_def split: if_splits)
qed

text \<open>
  Claim C4, as amended. For every text, every list of patterns and every \<open>max_items\<close>
  that is at least 1, \<open>find_sentences\<close> returns at most \<open>max_items\<close> entries (for any
  \<open>max_items\<close> at all: at most the larger of 1 and \<open>max_items\<close>). Every entry is not
  empty, has at most 240 characters, and is the sanitized text of a sentence that, trimmed
  and before sanitization, has at least 18 characters and matches one of the patterns: a
  shorter sentence is never included.
\<close>

theorem find_sentences_bounded:
  "int (length (find_sentences U text patterns max_items)) \<le> max 1 max_items \<and>
   (1 \<le> max_items \<longrightarrow> int (length (find_sentences U text patterns max_items)) \<le> max_items) \<and>
   (\<forall>e \<in> set (find_sentences U text patterns max_items).
      e \<noteq> [] \<and> length e \<le> 240 \<and>
      (\<exists>s0 \<in> set (re_split U False SENTENCE_END text). qualifies U patterns s0 e))"
proof -
  have len: "int (length (find_sentences U text patterns max_items)) \<le> max 1 max_items"
    using collect_hits_length [of "[]" max_items U patterns]
    by (simp add: find_sentences_def le_max_iff_disj)
  have ent: "e \<noteq> [] \<and> length e \<le> 240 \<and>
      (\<exists>s0 \<in> set (re_split U False SENTENCE_END text). qualifies U patterns s0 e)"
    if "e \<in> set (find_sentences U text patterns max_items)" for e
  proof -
    from that have "e \<in> set (collect_hits U patterns max_items [] (re_split U False SENTENCE_END text))"
      by (auto simp: find_sentences_def split: if_splits)
    from collect_hits_entries [OF this]
    have 1: "e \<noteq> []" and 2: "\<exists>s0 \<in> set (re_split U False SENTENCE_END text). qualifies U patterns s0 e"
      by auto
    from 2 have "length e \<le> 240" by (auto simp: qualifies_def)
    with 1 2 show ?thesis by simp
  qed
  show ?thesis using len ent by auto
qed

lemma find_sentences_one_eval:
  "find_sentences ascii_db (py ''Free estimates today.'') [word_pat ''free''] 1
     = [py ''Free estimates today.'']"
  by code_simp

theorem find_sentences_bounded_witness:
  "(1::int) \<le> 1 \<and>
   py ''Free estimates today.'' \<in> set (find_sentences ascii_db (py ''Free estimates today.'') [word_pat ''free''] 1) \<and>
   int (length (find_sentences ascii_db (py ''Free estimates today.'') [word_pat ''free''] 1)) \<le> 1 \<and>
   py ''Free estimates today.'' \<noteq> [] \<and> length (py ''Free estimates today.'') \<le> 240 \<and>
   (\<exists>s0 \<in> set (re_split ascii_db False SENTENCE_END (py ''Free estimates today.'')).
      qualifies ascii_db [word_pat ''free''] s0 (py ''Free estimates today.''))"
proof -
  have m: "py ''Free estimates today.'' \<in>
      set (find_sentences ascii_db (py ''Free estimates today.'') [word_pat ''free''] 1)"
    unfolding find_sentences_one_eval by simp
  from find_sentences_bounded [of ascii_db "py ''Free estimates today.''" "[word_pat ''free'']" 1] m
  show ?thesis by blast
qed

text \<open>
  Claim C4 as stated fails for \<open>max_items = 0\<close>: the bound is tested behind the
  \<open>append\<close>, so the first matching sentence is returned.
\<close>

theorem find_sentences_zero_items:
  "find_sentences ascii_db (py ''Free estimates today.'') [word_pat ''free''] 0
     = [py ''Free estimates today.''] \<and>
   \<not> int (length (find_sentences ascii_db (py ''Free estimates today.'') [word_pat ''free''] 0)) \<le> 0"
  by code_simp

section \<open>The phone normalizer\<close>

lemma rep_star_hd:
  "rep P 0 None q ys \<noteq> [] \<and> snd (hd (rep P 0 None q ys)) = dropWhile P ys"
  by (induction ys arbitrary: q) auto

lemma sub_go_nondigit:
  "k \<le> length (takeWhile (\<lambda>c. \<not> isdigit U c) xs) \<Longrightarrow>
   sub_go U False (Rep [NonDigit] 1 None) [] k p xs = filter (isdigit U) xs"
proof (induction xs arbitrary: k p)
  case Nil
  show ?case by simp
next
  case (Cons x xs)
  let ?nd = "\<lambda>c. \<not> isdigit U c"
  have ins: "in_set U False [NonDigit] = ?nd"
    by (rule ext) (simp add: in_set_def)
  show ?case
  proof (cases "0 < k")
    case True
    with Cons.prems have nd: "\<not> isdigit U x" and k: "k - 1 \<le> length (takeWhile ?nd xs)"
      by (auto split: if_splits)
    show ?thesis using True nd Cons.IH [OF k] by simp
  next
    case False
    then have k0: "k = 0" by simp
    show ?thesis
    proof (cases "isdigit U x")
      case True
      then show ?thesis using k0 Cons.IH [of 0 "Some x"] by (simp add: ins)
    next
      case False
      obtain q ys rest where r: "rep ?nd 0 None (Some x) xs = (q, ys) # rest"
        using rep_star_hd [of ?nd "Some x" xs] by (cases "rep ?nd 0 None (Some x) xs") auto
      then have ys: "ys = dropWhile ?nd xs"
        using rep_star_hd [of ?nd "Some x" xs] by simp
      have len: "length xs - length ys \<le> length (takeWhile ?nd xs)"
        unfolding ys
        by (metis diff_le_self length_append takeWhile_dropWhile_id add_diff_cancel_right' le_refl)
      have nl: "\<not> length xs < length ys"
        unfolding ys by (simp add: length_dropWhile_le not_less)
      show ?thesis using k0 False r nl Cons.IH [OF len] by (simp add: ins)
    qed
  qed
qed

lemma re_sub_nondigit:
  "re_sub U False (Rep [NonDigit] 1 None) [] s = filter (isdigit U) s"
  unfolding re_sub_def by (rule sub_go_nondigit) simp

lemma startswith_one: "startswith d [c] = (take 1 d = [c])"
  by (cases d) auto

lemma normalize_phone_digits:
  "normalize_phone U phone =
     (let digits = filter (isdigit U) (strip U phone)
      in if length digits = 10 then py ''+1'' @ digits
         else if length digits = 11 \<and> take 1 digits = py ''1'' then py ''+'' @ digits
         else digits)"
  unfolding normalize_phone_def re_sub_nondigit clean_str_def
  by (simp add: py_def startswith_one Let_def)

lemma filter_dropWhile:
  "(\<And>c. Q c \<Longrightarrow> \<not> P c) \<Longrightarrow> filter P (dropWhile Q xs) = filter P xs"
  by (induction xs) auto

lemma filter_strip:
  assumes "\<forall>c. isspace V c \<longrightarrow> \<not> isdigit V c"
  shows "filter (isdigit V) (strip V s) = filter (isdigit V) s"
proof -
  have d: "filter (isdigit V) (dropWhile (isspace V) xs) = filter (isdigit V) xs" for xs
    using assms by (intro filter_dropWhile) simp
  have "filter (isdigit V) (strip V s) = rev (filter (isdigit V) (rev (dropWhile (isspace V) s)))"
    unfolding strip_def rstrip_def rev_filter [symmetric] d ..
  also have "\<dots> = filter (isdigit V) s"
    unfolding rev_filter [symmetric] by (simp add: d)
  finally show ?thesis .
qed

lemma normalize_phone_eval:
  "normalize_phone ascii_db (py ''555-123-4567'') = py ''+15551234567'' \<and>
   normalize_phone ascii_db (py ''15551234567'') = py ''+15551234567'' \<and>
   normalize_phone ascii_db (py ''123'') = py ''123''"
  by code_simp

lemma ascii_phone_texts:
  "ascii (py ''555-123-4567'')" "ascii (py ''15551234567'')" "ascii (py ''123'')"
  by (simp_all add: py_def)

text \<open>
  Claim C9. \<open>normalize_phone\<close> keeps the digits of its input and nothing else (the
  input is trimmed first, which changes nothing as no whitespace character is a digit);
  to exactly 10 digits it prepends \<open>+1\<close>, to exactly 11 digits of which the first is
  \<open>1\<close> it prepends \<open>+\<close>, and otherwise it returns the digits alone (possibly none).
  So \<open>555-123-4567\<close> and \<open>15551234567\<close> both give \<open>+15551234567\<close>, and \<open>123\<close>
  gives \<open>123\<close>.
\<close>

theorem normalize_phone_spec:
  "normalize_phone V phone =
     (let digits = filter (isdigit V) (strip V phone)
      in if length digits = 10 then py ''+1'' @ digits
         else if length digits = 11 \<and> take 1 digits = py ''1'' then py ''+'' @ digits
         else digits) \<and>
   ((\<forall>c. isspace V c \<longrightarrow> \<not> isdigit V c) \<longrightarrow>
      filter (isdigit V) (strip V phone) = filter (isdigit V) phone) \<and>
   (ascii_agree U \<longrightarrow>
      normalize_phone U (py ''555-123-4567'') = py ''+15551234567'' \<and>
      normalize_phone U (py ''15551234567'') = py ''+15551234567'' \<and>
      normalize_phone U (py ''123'') = py ''123'')"
  using normalize_phone_digits [of V phone] filter_strip [of V phone] normalize_phone_eval
    normalize_phone_ascii [OF _ ascii_phone_texts(1), of U]
    normalize_phone_ascii [OF _ ascii_phone_texts(2), of U]
    normalize_phone_ascii [OF _ ascii_phone_texts(3), of U]
  by simp

lemma ascii_db_space_digit: "\<forall>c. isspace ascii_db c \<longrightarrow> \<not> isdigit ascii_db c"
  by (auto simp: ascii_db_def)

theorem normalize_phone_spec_witness:
  "ascii_agree ascii_db \<and>
   filter (isdigit ascii_db) (strip ascii_db (py '' 123 '')) = filter (isdigit ascii_db) (py '' 123 '') \<and>
   normalize_phone ascii_db (py ''555-123-4567'') = py ''+15551234567'' \<and>
   normalize_phone ascii_db (py ''15551234567'') = py ''+15551234567'' \<and>
   normalize_phone ascii_db (py ''123'') = py ''123''"
  using normalize_phone_spec [of ascii_db "py '' 123 ''" ascii_db] ascii_agree_self
    ascii_db_space_digit
  by blast

section \<open>The crawl\<close>







text \<open>
  A page fetched with a status below 400 that is too thin is not collected and not counted:
  of such fetches there can be 12.
\<close>

lemma crawl_thin_eval:
  "length (requests (crawl thin_web ascii_db (py ''https://x.com'') crawl_init CANDIDATE_PATHS)) = 12 \<and>
   pages_checked (crawl thin_web ascii_db (py ''https://x.com'') crawl_init CANDIDATE_PATHS) = []"
  by code_simp



lemma normalize_url_empty_iff: "normalize_url U website = [] \<longleftrightarrow> strip U website = []"
  by (simp add: normalize_url_def clean_str_def py_def Let_def)

text \<open>
  Claim C7. A website string that normalizes to the empty string (one that is empty once
  trimmed) gives the status \<open>missing\<close> at once, and no request is issued.
\<close>

theorem scrape_missing:
  "normalize_url U website = [] \<Longrightarrow>
   scrape_site_bundle W U website = ([(''status'', S (py ''missing''))], [])"
  by (simp add: scrape_site_bundle_def)

lemma normalize_url_blank_eval: "normalize_url ascii_db (py ''  '') = []"
  by code_simp

theorem scrape_missing_witness:
  "normalize_url ascii_db (py ''  '') = [] \<and>
   scrape_site_bundle fat_web ascii_db (py ''  '') = ([(''status'', S (py ''missing''))], [])"
  using scrape_missing [of ascii_db "py ''  ''" fat_web] normalize_url_blank_eval by blast

lemma assemble_bundle_status:
  "\<exists>rest. assemble_bundle U st = (''status'', S (py ''ok'')) # rest"
  unfolding assemble_bundle_def Let_def by blast

text \<open>
  Claim C10. When \<open>scrape_site_bundle\<close> returns the status \<open>missing\<close> or the status
  \<open>unreachable\<close>, the record it returns has the key \<open>status\<close> and no other.
\<close>

theorem scrape_status_only:
  "map_of (fst (scrape_site_bundle W U website)) ''status'' = Some (S (py ''missing'')) \<or>
   map_of (fst (scrape_site_bundle W U website)) ''status'' = Some (S (py ''unreachable'')) \<Longrightarrow>
   map fst (fst (scrape_site_bundle W U website)) = [''status'']"
proof -
  assume a: "map_of (fst (scrape_site_bundle W U website)) ''status'' = Some (S (py ''missing'')) \<or>
   map_of (fst (scrape_site_bundle W U website)) ''status'' = Some (S (py ''unreachable''))"
  obtain rest where r: "assemble_bundle U (crawl W U (normalize_url U website) crawl_init CANDIDATE_PATHS)
      = (''status'', S (py ''ok'')) # rest"
    using assemble_bundle_status by blast
  have ne: "py ''ok'' \<noteq> py ''missing''" "py ''ok'' \<noteq> py ''unreachable''"
    by (simp_all add: py_def)
  show ?thesis
    using a ne unfolding scrape_site_bundle_def Let_def r
    by (auto split: if_splits)
qed

lemma scrape_offline_eval:
  "fst (scrape_site_bundle offline_web ascii_db (py ''x.com'')) = [(''status'', S (py ''unreachable''))] \<and>
   fst (scrape_site_bundle offline_web ascii_db (py ''  '')) = [(''status'', S (py ''missing''))]"
  by code_simp

theorem scrape_status_only_witness:
  "map_of (fst (scrape_site_bundle offline_web ascii_db (py ''x.com''))) ''status''
     = Some (S (py ''unreachable'')) \<and>
   map fst (fst (scrape_site_bundle offline_web ascii_db (py ''x.com''))) = [''status''] \<and>
   map_of (fst (scrape_site_bundle offline_web ascii_db (py ''  ''))) ''status''
     = Some (S (py ''missing'')) \<and>
   map fst (fst (scrape_site_bundle offline_web ascii_db (py ''  ''))) = [''status'']"
proof -
  have u: "map_of (fst (scrape_site_bundle offline_web ascii_db (py ''x.com''))) ''status''
     = Some (S (py ''unreachable''))"
    using scrape_offline_eval by simp
  have m: "map_of (fst (scrape_site_bundle offline_web ascii_db (py ''  ''))) ''status''
     = Some (S (py ''missing''))"
    using scrape_offline_eval by simp
  from scrape_status_only [of offline_web ascii_db "py ''x.com''"]
    scrape_status_only [of offline_web ascii_db "py ''  ''"] u m
  show ?thesis by blast
qed

end
